theory Spec2Isabelle
  imports Main "HOL-Library.Word"
begin

section \<open>The ALB ingress controller: data model\<close>

text \<open>
  The controller of \<^verbatim>\<open>controller/controller.go\<close> keeps a list of \<^verbatim>\<open>ALBIngress\<close>
  objects, rebuilds it on every \<^verbatim>\<open>OnUpdate\<close> from the ingress resources of the cluster,
  and synchronises every element with AWS on \<^verbatim>\<open>Reload\<close>.

  Go slices are modelled as \<open>'a list option\<close>: \<open>None\<close> is the \<^verbatim>\<open>nil\<close> slice, which
  \<^verbatim>\<open>OnUpdate\<close> tests for, and \<open>Some xs\<close> a slice holding \<open>xs\<close>.
\<close>

type_synonym 'a slice = "'a list option"

definition elems :: "'a slice \<Rightarrow> 'a list" where
  \<comment> \<open>what \<^verbatim>\<open>range s\<close> visits and \<^verbatim>\<open>len(s)\<close> counts; a nil slice has no element\<close>
  "elems s = (case s of None \<Rightarrow> [] | Some xs \<Rightarrow> xs)"

definition go_append :: "'a slice \<Rightarrow> 'a list \<Rightarrow> 'a slice" where
  \<comment> \<open>\<^verbatim>\<open>append(s, ys...)\<close>: appending nothing returns \<^verbatim>\<open>s\<close> itself (nil stays nil)\<close>
  "go_append s ys = (if ys = [] then s else Some (elems s @ ys))"

text \<open>
  Modelled from the spec: the \<^verbatim>\<open>ALBIngress\<close> struct is declared in a file that is not
  among the sources. Section 3 of the specification gives a tracked entity an identity
  (derived from namespace and name), a desired state that is empty once deletion is
  initiated, an ordered collection of load-balancer handles and a taint flag; the
  controller reads and writes the fields \<^verbatim>\<open>LoadBalancers\<close> and \<^verbatim>\<open>tainted\<close> under these
  names. The desired state \<open>'d\<close> and the load-balancer handle \<open>'l\<close> stay abstract.
\<close>

record ('d, 'l) ALBIngress =
  identity :: string
  desiredState :: "'d option"
  LoadBalancers :: "'l list"
  tainted :: bool

type_synonym ('d, 'l) ALBIngressesT = "('d, 'l) ALBIngress slice"

text \<open>
  The Kubernetes objects the controller reads. Of an \<^verbatim>\<open>extensions.Ingress\<close> the controller
  itself only reads the annotations; of an \<^verbatim>\<open>api.Service\<close> the type and the ports.
  \<^verbatim>\<open>int32\<close> is \<open>32 word\<close>, \<^verbatim>\<open>int64\<close> is \<open>64 word\<close>.
\<close>

record Ingress =
  Namespace :: string
  Name :: string
  Annotations :: "string \<rightharpoonup> string"

record ServicePort =
  Port :: "32 word"
  NodePort :: "32 word"

record Service =
  Type :: string
  Ports :: "ServicePort list"

definition ServiceTypeNodePort :: string where
  "ServiceTypeNodePort = ''NodePort''"

record StoreLister =
  Ingress_List :: "Ingress list"
  Service_GetByKey :: "string \<rightharpoonup> Service"

record ('d, 'l) ALBController =
  storeLister :: StoreLister
  ALBIngresses :: "('d, 'l) ALBIngressesT"
  ClusterName :: string
  IngressClass :: string

section \<open>The class filter\<close>

definition annotation :: "Ingress \<Rightarrow> string \<Rightarrow> string" where
  \<comment> \<open>\<^verbatim>\<open>i.Annotations[k]\<close>: a Go map yields the zero value \<^verbatim>\<open>""\<close> for a missing key\<close>
  "annotation i k = (case Annotations i k of None \<Rightarrow> [] | Some v \<Rightarrow> v)"

definition validIngress :: "('d, 'l) ALBController \<Rightarrow> Ingress \<Rightarrow> bool" where
  "validIngress ac i =
     (if IngressClass ac = [] then True
      else if annotation i ''kubernetes.io/ingress.class'' = IngressClass ac then True
      else False)"

section \<open>The backend port resolver\<close>

definition GetServiceNodePort ::
  "('d, 'l) ALBController \<Rightarrow> string \<Rightarrow> 32 word \<Rightarrow> string + 64 word" where
  "GetServiceNodePort ac serviceKey backendPort =
     (case Service_GetByKey (storeLister ac) serviceKey of
        None \<Rightarrow> Inl (''Unable to find the '' @ serviceKey @ '' service'')
      | Some item \<Rightarrow>
          if Type item \<noteq> ServiceTypeNodePort
          then Inl (serviceKey @ '' service is not of type NodePort'')
          else (case List.find (\<lambda>p. Port p = backendPort) (Ports item) of
                  Some p \<Rightarrow> Inr (scast (NodePort p))
                | None \<Rightarrow>
                    Inl (''Unable to find a port defined in the '' @ serviceKey @ '' service'')))"

section \<open>Helpers of the tracked set\<close>

text \<open>
  Modelled from the spec: the method \<^verbatim>\<open>find\<close> of \<^verbatim>\<open>ALBIngressesT\<close> is defined in a file
  that is not among the sources. The specification matches entities by identity, never by
  object reference (sections 3 and 4.4); the callers read its result as a position, with a
  negative value for "not found". It is the position of the first entity of the slice with
  the identity of \<open>b\<close>, or \<open>-1\<close>. It is named \<open>find_ingress\<close> here, \<open>find\<close> being a
  function of the list library.
\<close>

fun find_from :: "('d, 'l) ALBIngress list \<Rightarrow> ('d, 'l) ALBIngress \<Rightarrow> int \<Rightarrow> int" where
  "find_from [] b p = - 1"
| "find_from (v # a) b p = (if identity v = identity b then p else find_from a b (p + 1))"

definition find_ingress :: "('d, 'l) ALBIngressesT \<Rightarrow> ('d, 'l) ALBIngress \<Rightarrow> int" where
  "find_ingress a b = find_from (elems a) b 0"

text \<open>
  Modelled from the spec: the method \<^verbatim>\<open>StripDesiredState\<close> of \<^verbatim>\<open>ALBIngress\<close> is defined in
  a file that is not among the sources. Section 3: an entity slated for deletion has its
  desired state cleared; nothing else of the entity changes.
\<close>

definition StripDesiredState :: "('d, 'l) ALBIngress \<Rightarrow> ('d, 'l) ALBIngress" where
  "StripDesiredState a = a\<lparr>desiredState := None\<rparr>"

text \<open>
  Modelled from the spec: \<^verbatim>\<open>NewALBIngressFromLoadBalancer\<close> is defined in a file that is
  not among the sources. Section 4.3: the owning identity is derived from the cloud
  resource by reversing the naming convention (the parameter \<open>owner\<close>, which yields
  \<open>None\<close> where the source returns \<^verbatim>\<open>ok = false\<close>), and the new entity holds the discovered
  load balancer, with an empty desired state.
\<close>

definition NewALBIngressFromLoadBalancer ::
  "(string \<Rightarrow> 'l \<Rightarrow> string option) \<Rightarrow> string \<Rightarrow> 'l \<Rightarrow> ('d, 'l) ALBIngress option" where
  "NewALBIngressFromLoadBalancer owner clusterName loadBalancer =
     (case owner clusterName loadBalancer of
        None \<Rightarrow> None
      | Some i \<Rightarrow>
          Some \<lparr>identity = i, desiredState = None, LoadBalancers = [loadBalancer],
                tainted = False\<rparr>)"

section \<open>Bootstrap: assembling the tracked set from AWS\<close>

text \<open>
  \<^verbatim>\<open>glog.Fatal\<close> ends the process, and so does an index out of range in a goroutine; both
  are values of \<open>failure\<close>. The lines written with \<^verbatim>\<open>log.Infof\<close> and \<^verbatim>\<open>log.Debugf\<close> are
  returned as a list, the format string with its numeric arguments.
\<close>

datatype failure = Fatal string | IndexOutOfRange

datatype logline = Infof string "nat list" | Debugf string

text \<open>
  The body of the goroutine that \<^verbatim>\<open>assembleIngresses\<close> starts for one load balancer. The
  goroutines are modelled as running one after the other, in the order of the listing.
\<close>

definition assemble_one ::
  "(string \<Rightarrow> 'l \<Rightarrow> string option) \<Rightarrow> string \<Rightarrow> ('d, 'l) ALBIngressesT \<Rightarrow> 'l
    \<Rightarrow> failure + ('d, 'l) ALBIngressesT" where
  "assemble_one owner clusterName s loadBalancer =
     (case NewALBIngressFromLoadBalancer owner clusterName loadBalancer of
        None \<Rightarrow> Inr s
      | Some albIngress \<Rightarrow>
          (let i = find_ingress s albIngress in
           if i \<ge> 0 then
             (let albIngress = elems s ! nat i in
              case LoadBalancers albIngress of
                [] \<Rightarrow> Inl IndexOutOfRange
              | l0 # _ \<Rightarrow>
                  Inr (Some ((elems s)[nat i :=
                    albIngress\<lparr>LoadBalancers := LoadBalancers albIngress @ [l0]\<rparr>])))
           else Inr (go_append s [albIngress])))"

fun assemble_loop ::
  "(string \<Rightarrow> 'l \<Rightarrow> string option) \<Rightarrow> string \<Rightarrow> ('d, 'l) ALBIngressesT \<Rightarrow> 'l list
    \<Rightarrow> failure + ('d, 'l) ALBIngressesT" where
  "assemble_loop owner clusterName s [] = Inr s"
| "assemble_loop owner clusterName s (loadBalancer # rest) =
     (case assemble_one owner clusterName s loadBalancer of
        Inl f \<Rightarrow> Inl f
      | Inr s' \<Rightarrow> assemble_loop owner clusterName s' rest)"

definition assembleIngresses ::
  "(string \<Rightarrow> string + 'l list) \<Rightarrow> (string \<Rightarrow> 'l \<Rightarrow> string option) \<Rightarrow> ('d, 'l) ALBController
    \<Rightarrow> failure + ('d, 'l) ALBController \<times> logline list" where
  "assembleIngresses DescribeLoadBalancers owner ac =
     (case DescribeLoadBalancers (ClusterName ac) of
        Inl err \<Rightarrow> Inl (Fatal err)
      | Inr loadBalancers \<Rightarrow>
          (case assemble_loop owner (ClusterName ac) None loadBalancers of
             Inl f \<Rightarrow> Inl f
           | Inr s \<Rightarrow>
               Inr (ac\<lparr>ALBIngresses := s\<rparr>,
                    [Infof ''Build up list of existing ingresses'' [],
                     Infof ''Assembled %d ingresses from existing AWS resources''
                       [length (elems s)]])))"

section \<open>The diff cycle\<close>

text \<open>
  \<^verbatim>\<open>NewALBIngressFromIngress\<close> is defined in a file that is not among the sources; it is
  the parameter \<open>build\<close>, which returns the entity (or nil) and the error (or nil) for an
  ingress resource and the controller.

  The entities are pointers in the source. The deletion pass strips the entity it keeps
  in place, in a list that the cycle then replaces as a whole, so the model passes
  entities by value. The counters of \<^verbatim>\<open>awsutil\<close> that the cycle updates are metrics and
  are left out. A cycle yields the controller as it leaves it, the error it returns and
  the lines it logged, or the failure that ended the process.
\<close>

type_synonym ('d, 'l) builder =
  "Ingress \<Rightarrow> ('d, 'l) ALBController \<Rightarrow> ('d, 'l) ALBIngress option \<times> string option"

fun build_loop ::
  "('d, 'l) builder \<Rightarrow> ('d, 'l) ALBController \<Rightarrow> Ingress list \<Rightarrow> ('d, 'l) ALBIngressesT
    \<Rightarrow> ('d, 'l) ALBIngressesT" where
  "build_loop build ac [] acc = acc"
| "build_loop build ac (ingResource # rest) acc =
     (if \<not> validIngress ac ingResource then build_loop build ac rest acc
      else
        (case build ingResource ac of
           (None, err) \<Rightarrow> build_loop build ac rest acc
         | (Some a, err) \<Rightarrow>
             build_loop build ac rest
               (go_append acc [if err \<noteq> None then a\<lparr>tainted := True\<rparr> else a])))"

fun delete_loop ::
  "('d, 'l) ALBIngress list \<Rightarrow> ('d, 'l) ALBIngressesT \<Rightarrow> ('d, 'l) ALBIngressesT
    \<Rightarrow> ('d, 'l) ALBIngressesT" where
  "delete_loop [] newList acc = acc"
| "delete_loop (ingress # rest) newList acc =
     (if tainted ingress then delete_loop rest newList acc
      else if find_ingress newList ingress < 0 then
        (if length (LoadBalancers ingress) > 0
         then delete_loop rest newList (go_append acc [StripDesiredState ingress])
         else delete_loop rest newList acc)
      else delete_loop rest newList acc)"

definition ingressToDelete ::
  "('d, 'l) ALBController \<Rightarrow> ('d, 'l) ALBIngressesT \<Rightarrow> ('d, 'l) ALBIngressesT" where
  "ingressToDelete ac newList = delete_loop (elems (ALBIngresses ac)) newList None"

record ('d, 'l) update =
  controller :: "('d, 'l) ALBController"
  returned :: "string option"
  logged :: "logline list"

definition OnUpdate ::
  "(string \<Rightarrow> string + 'l list) \<Rightarrow> (string \<Rightarrow> 'l \<Rightarrow> string option) \<Rightarrow> ('d, 'l) builder
    \<Rightarrow> ('d, 'l) ALBController \<Rightarrow> 'c \<Rightarrow> failure + ('d, 'l) update" where
  "OnUpdate DescribeLoadBalancers owner build ac ingressConfiguration =
     (case (if ALBIngresses ac = None then assembleIngresses DescribeLoadBalancers owner ac
            else Inr (ac, [])) of
        Inl f \<Rightarrow> Inl f
      | Inr (ac1, lines) \<Rightarrow>
          (let built = build_loop build ac1 (Ingress_List (storeLister ac1)) None;
               deletable = ingressToDelete ac1 built;
               next = (if length (elems deletable) > 0
                       then go_append built (elems deletable) else built)
           in Inr \<lparr>controller = ac1\<lparr>ALBIngresses := next\<rparr>,
                   returned = None,
                   logged = lines @ [Debugf ''OnUpdate event seen by ALB ingress controller.'']\<rparr>))"

definition bootstrap_ran :: "('d, 'l) update \<Rightarrow> bool" where
  \<comment> \<open>the first line of \<^verbatim>\<open>assembleIngresses\<close> was logged during the cycle\<close>
  "bootstrap_ran r = (Infof ''Build up list of existing ingresses'' [] \<in> set (logged r))"

section \<open>Convergence dispatch\<close>

text \<open>
  \<^verbatim>\<open>Reconcile\<close> is defined in a file that is not among the sources; it is the parameter
  \<open>reconcile\<close>, which updates one entity. It returns nothing to \<^verbatim>\<open>Reload\<close>. The goroutines
  work on distinct entities and are modelled as a map over the slice.
\<close>

definition Reload ::
  "(('d, 'l) ALBIngress \<Rightarrow> ('d, 'l) ALBIngress) \<Rightarrow> ('d, 'l) ALBController \<Rightarrow> 8 word list
    \<Rightarrow> ('d, 'l) ALBController \<times> (8 word list \<times> bool \<times> string option)" where
  "Reload reconcile ac data =
     (ac\<lparr>ALBIngresses := map_option (map reconcile) (ALBIngresses ac)\<rparr>, ([], True, None))"

section \<open>Startup\<close>

datatype startup = Exit string | Started

definition main :: "string \<Rightarrow> startup" where
  \<comment> \<open>the checks of \<^verbatim>\<open>main\<close> on \<^verbatim>\<open>*ac.ClusterName\<close> before \<^verbatim>\<open>ic.Start()\<close>;
      \<^verbatim>\<open>len\<close> counts the bytes of the string, as \<open>length\<close> does\<close>
  "main clusterName =
     (if clusterName = [] then Exit ''A cluster name must be defined''
      else if length clusterName > 11 then Exit ''Cluster name must be 11 characters or less''
      else Started)"

section \<open>Sample inputs\<close>

text \<open>
  A builder in the manner of section 4.2 of the specification: the identity is namespace
  and name, the desired state is read off the resource, the load balancers are those of
  the entity tracked so far, a resource named \<open>skip\<close> yields no entity and one named
  \<open>bar\<close> fails in part.
\<close>

definition sample_build :: "(string, string) builder" where
  "sample_build i ac =
     (if Name i = ''skip'' then (None, Some ''no backend'')
      else
        (Some \<lparr>identity = Namespace i @ ''/'' @ Name i,
               desiredState = Some (Name i),
               LoadBalancers =
                 concat (map LoadBalancers
                   (filter (\<lambda>x. identity x = Namespace i @ ''/'' @ Name i)
                     (elems (ALBIngresses ac)))),
               tainted = False\<rparr>,
         if Name i = ''bar'' then Some ''Unable to find the ns/bar service'' else None))"

definition foo :: "(string, string) ALBIngress" where
  "foo = \<lparr>identity = ''ns/foo'', desiredState = Some ''foo'', LoadBalancers = [''arn1''],
          tainted = False\<rparr>"

definition gone :: "(string, string) ALBIngress" where
  "gone = \<lparr>identity = ''ns/gone'', desiredState = None, LoadBalancers = [],
           tainted = False\<rparr>"

definition bar :: "(string, string) ALBIngress" where
  "bar = \<lparr>identity = ''ns/bar'', desiredState = Some ''bar'', LoadBalancers = [''arn2''],
          tainted = True\<rparr>"

definition no_specs :: StoreLister where
  "no_specs = \<lparr>Ingress_List = [], Service_GetByKey = Map.empty\<rparr>"

definition tracking :: "(string, string) ALBController" where
  "tracking = \<lparr>storeLister = no_specs, ALBIngresses = Some [foo, gone, bar],
     ClusterName = ''k8s'', IngressClass = ''alb''\<rparr>"

definition no_cloud :: "string \<Rightarrow> string + string list" where
  "no_cloud clusterName = Inr []"

definition no_owner :: "string \<Rightarrow> string \<Rightarrow> string option" where
  "no_owner clusterName loadBalancer = None"


definition lower_class :: Ingress where
  "lower_class = \<lparr>Namespace = ''ns'', Name = ''lower'',
     Annotations = [''kubernetes.io/ingress.class'' \<mapsto> ''alb'']\<rparr>"

definition web :: Service where
  "web = \<lparr>Type = ''NodePort'',
     Ports = [\<lparr>Port = 443, NodePort = 30443\<rparr>, \<lparr>Port = 80, NodePort = 30080\<rparr>,
              \<lparr>Port = 80, NodePort = 31080\<rparr>]\<rparr>"

definition serving :: "(string, string) ALBController" where
  "serving = \<lparr>storeLister = \<lparr>Ingress_List = [], Service_GetByKey = [''ns/web'' \<mapsto> web]\<rparr>,
     ALBIngresses = None, ClusterName = ''k8s'', IngressClass = ''alb''\<rparr>"

definition tainted_only :: "(string, string) ALBController" where
  "tainted_only = \<lparr>storeLister = no_specs, ALBIngresses = Some [bar],
     ClusterName = ''k8s'', IngressClass = ''alb''\<rparr>"

definition cold :: "(string, string) ALBController" where
  "cold = \<lparr>storeLister = no_specs, ALBIngresses = None,
     ClusterName = ''k8s'', IngressClass = ''alb''\<rparr>"

definition cloud_down :: "string \<Rightarrow> string + string list" where
  "cloud_down clusterName = Inl ''RequestError: send request failed''"

definition idle_cycle :: "(string, string) update" where
  "idle_cycle = \<lparr>controller = cold, returned = None,
     logged = [Infof ''Build up list of existing ingresses'' [],
               Infof ''Assembled %d ingresses from existing AWS resources'' [0],
               Debugf ''OnUpdate event seen by ALB ingress controller.'']\<rparr>"

definition one_lb :: "string \<Rightarrow> string + string list" where
  "one_lb clusterName = Inr [''arn1'']"

definition foo_owner :: "string \<Rightarrow> string \<Rightarrow> string option" where
  "foo_owner clusterName loadBalancer = Some ''ns/foo''"

definition teardown :: "(string, string) ALBIngress \<Rightarrow> (string, string) ALBIngress" where
  "teardown a = a\<lparr>LoadBalancers := []\<rparr>"

definition first_cycle :: "(string, string) update" where
  "first_cycle =
     \<lparr>controller = cold\<lparr>ALBIngresses :=
        Some [\<lparr>identity = ''ns/foo'', desiredState = None, LoadBalancers = [''arn1''],
               tainted = False\<rparr>]\<rparr>,
      returned = None,
      logged = [Infof ''Build up list of existing ingresses'' [],
                Infof ''Assembled %d ingresses from existing AWS resources'' [1],
                Debugf ''OnUpdate event seen by ALB ingress controller.'']\<rparr>"

definition second_cycle :: "(string, string) update" where
  "second_cycle =
     \<lparr>controller = cold, returned = None,
      logged = [Debugf ''OnUpdate event seen by ALB ingress controller.'']\<rparr>"

definition bar_spec :: Ingress where
  "bar_spec = \<lparr>Namespace = ''ns'', Name = ''bar'',
     Annotations = [''kubernetes.io/ingress.class'' \<mapsto> ''alb'']\<rparr>"

definition failing :: "(string, string) ALBController" where
  "failing = \<lparr>storeLister = \<lparr>Ingress_List = [bar_spec, lower_class],
       Service_GetByKey = Map.empty\<rparr>,
     ALBIngresses = Some [foo], ClusterName = ''k8s'', IngressClass = ''alb''\<rparr>"

definition first_diff :: "(string, string) update" where
  "first_diff =
     \<lparr>controller = failing\<lparr>ALBIngresses :=
        Some [\<lparr>identity = ''ns/bar'', desiredState = Some ''bar'', LoadBalancers = [],
               tainted = True\<rparr>,
              \<lparr>identity = ''ns/lower'', desiredState = Some ''lower'', LoadBalancers = [],
               tainted = False\<rparr>,
              \<lparr>identity = ''ns/foo'', desiredState = None, LoadBalancers = [''arn1''],
               tainted = False\<rparr>]\<rparr>,
      returned = None,
      logged = [Debugf ''OnUpdate event seen by ALB ingress controller.'']\<rparr>"

definition orphan :: "(string, string) ALBIngress" where
  "orphan = \<lparr>identity = ''ns/foo'', desiredState = None, LoadBalancers = [''arn1''],
             tainted = False\<rparr>"

definition seeded :: "(string, string) ALBController" where
  "seeded = cold\<lparr>ALBIngresses := Some [orphan]\<rparr>"

definition bar_cloud :: "string \<Rightarrow> string + string list" where
  "bar_cloud clusterName = Inr [''arn2'']"

definition bar_owner :: "string \<Rightarrow> string \<Rightarrow> string option" where
  "bar_owner clusterName loadBalancer = Some ''ns/bar''"

definition dropped_cycle :: "(string, string) update" where
  "dropped_cycle =
     \<lparr>controller = tainted_only\<lparr>ALBIngresses := None\<rparr>, returned = None,
      logged = [Debugf ''OnUpdate event seen by ALB ingress controller.'']\<rparr>"

definition reseeded_cycle :: "(string, string) update" where
  "reseeded_cycle =
     \<lparr>controller = tainted_only\<lparr>ALBIngresses :=
        Some [\<lparr>identity = ''ns/bar'', desiredState = None, LoadBalancers = [''arn2''],
               tainted = False\<rparr>]\<rparr>,
      returned = None,
      logged = [Infof ''Build up list of existing ingresses'' [],
                Infof ''Assembled %d ingresses from existing AWS resources'' [1],
                Debugf ''OnUpdate event seen by ALB ingress controller.'']\<rparr>"

section \<open>Slices and positions\<close>

definition proper :: "'a slice \<Rightarrow> bool" where
  \<comment> \<open>a slice built by appending to a nil slice is nil or has an element\<close>
  "proper s = (s \<noteq> Some [])"

definition content :: "('d, 'l) ALBIngress \<Rightarrow> string \<times> 'd option" where
  \<comment> \<open>what two tracked sets are compared on: identity and desired state\<close>
  "content a = (identity a, desiredState a)"

definition loaded :: "('d, 'l) ALBIngressesT \<Rightarrow> bool" where
  \<comment> \<open>every entity of the slice holds a load balancer, as those of the bootstrap do\<close>
  "loaded s = (proper s \<and> (\<forall>x \<in> set (elems s). LoadBalancers x \<noteq> []))"

lemma int64_of_int32: "sint (scast (w :: 32 word) :: 64 word) = sint w"
  by (rule sint_up_scast) (simp add: is_up)

lemma elems_None [simp]: "elems None = []"
  by (simp add: elems_def)

lemma elems_Some [simp]: "elems (Some xs) = xs"
  by (simp add: elems_def)

lemma elems_go_append [simp]: "elems (go_append s ys) = elems s @ ys"
  by (simp add: go_append_def)

lemma proper_None [simp]: "proper None"
  by (simp add: proper_def)

lemma proper_go_append: "proper s \<Longrightarrow> proper (go_append s ys)"
  by (simp add: proper_def go_append_def)

lemma proper_nil_iff: "proper s \<Longrightarrow> s = None \<longleftrightarrow> elems s = []"
  by (cases s) (auto simp: proper_def)

lemma find_from_range: "0 \<le> p \<Longrightarrow> find_from a b p = - 1 \<or> (p \<le> find_from a b p \<and> find_from a b p < p + int (length a))"
proof (induction a arbitrary: p)
  case Nil
  then show ?case by simp
next
  case (Cons v a)
  from Cons.prems have "0 \<le> p + 1" by simp
  from Cons.IH [OF this] show ?case by auto
qed

lemma find_from_neg_iff:
  "0 \<le> p \<Longrightarrow> find_from a b p < 0 \<longleftrightarrow> identity b \<notin> identity ` set a"
proof (induction a arbitrary: p)
  case Nil
  then show ?case by simp
next
  case (Cons v a)
  from Cons.prems have "0 \<le> p + 1" by simp
  from Cons.IH [OF this] Cons.prems show ?case by auto
qed

lemma find_ingress_neg_iff:
  "find_ingress s b < 0 \<longleftrightarrow> identity b \<notin> identity ` set (elems s)"
  by (simp add: find_ingress_def find_from_neg_iff)

lemma find_from_hit:
  "0 \<le> p \<Longrightarrow> 0 \<le> find_from a b p \<Longrightarrow>
   nat (find_from a b p - p) < length a \<and>
   identity (a ! nat (find_from a b p - p)) = identity b"
proof (induction a arbitrary: p)
  case Nil
  then show ?case by simp
next
  case (Cons v a)
  show ?case
  proof (cases "identity v = identity b")
    case True
    then show ?thesis by simp
  next
    case False
    from Cons.prems have p1: "0 \<le> p + 1" by simp
    from False Cons.prems have q: "0 \<le> find_from a b (p + 1)" by simp
    from find_from_range [OF p1, of a b] q have ge: "p + 1 \<le> find_from a b (p + 1)" by auto
    then have n: "nat (find_from a b (p + 1) - p) = Suc (nat (find_from a b (p + 1) - (p + 1)))"
      by simp
    from Cons.IH [OF p1 q] False n show ?thesis by simp
  qed
qed

lemma proper_build_loop: "proper acc \<Longrightarrow> proper (build_loop build ac specs acc)"
  by (induction specs arbitrary: acc) (auto simp: proper_go_append split: option.splits prod.splits)

lemma elems_delete_loop:
  "elems (delete_loop prev newList acc) =
     elems acc @ map StripDesiredState
       (filter (\<lambda>e. \<not> tainted e \<and> identity e \<notin> identity ` set (elems newList) \<and>
                     LoadBalancers e \<noteq> []) prev)"
  by (induction prev arbitrary: acc) (auto simp: find_ingress_neg_iff)

lemma proper_delete_loop: "proper acc \<Longrightarrow> proper (delete_loop prev newList acc)"
  by (induction prev arbitrary: acc) (auto simp: proper_go_append)

lemma elems_ingressToDelete:
  "elems (ingressToDelete ac newList) =
     map StripDesiredState
       (filter (\<lambda>e. \<not> tainted e \<and> identity e \<notin> identity ` set (elems newList) \<and>
                     LoadBalancers e \<noteq> []) (elems (ALBIngresses ac)))"
  by (simp add: ingressToDelete_def elems_delete_loop)

section \<open>The diff cycle: what the next set holds\<close>

lemma OnUpdate_initialized:
  "ALBIngresses ac \<noteq> None \<Longrightarrow>
   OnUpdate DescribeLoadBalancers owner build ac cfg =
     Inr \<lparr>controller = ac\<lparr>ALBIngresses :=
             go_append (build_loop build ac (Ingress_List (storeLister ac)) None)
               (elems (ingressToDelete ac (build_loop build ac (Ingress_List (storeLister ac)) None)))\<rparr>,
          returned = None,
          logged = [Debugf ''OnUpdate event seen by ALB ingress controller.'']\<rparr>"
  by (cases "ALBIngresses ac") (simp_all add: OnUpdate_def Let_def go_append_def)

lemma OnUpdate_seeded:
  assumes "(if ALBIngresses ac = None then assembleIngresses DescribeLoadBalancers owner ac
            else Inr (ac, [])) = Inr (ac1, lines)"
  shows "OnUpdate DescribeLoadBalancers owner build ac cfg =
     Inr \<lparr>controller = ac1\<lparr>ALBIngresses :=
             go_append (build_loop build ac1 (Ingress_List (storeLister ac1)) None)
               (elems (ingressToDelete ac1
                  (build_loop build ac1 (Ingress_List (storeLister ac1)) None)))\<rparr>,
          returned = None,
          logged = lines @ [Debugf ''OnUpdate event seen by ALB ingress controller.'']\<rparr>"
  unfolding OnUpdate_def assms by (simp add: Let_def go_append_def)

lemma filter_distinct_key:
  "distinct (map f xs) \<Longrightarrow> e \<in> set xs \<Longrightarrow> filter (\<lambda>x. f x = f e) xs = [e]"
proof (induction xs)
  case Nil
  then show ?case by simp
next
  case (Cons x xs)
  show ?case
  proof (cases "x = e")
    case True
    with Cons.prems have "f e \<notin> f ` set xs" by simp
    then have "filter (\<lambda>x. f x = f e) xs = []" by (induction xs) auto
    with True show ?thesis by simp
  next
    case False
    with Cons.prems have "e \<in> set xs" and "f x \<noteq> f e" by auto
    with Cons show ?thesis by simp
  qed
qed

lemma filter_absent_key: "f e \<notin> f ` set xs \<Longrightarrow> filter (\<lambda>x. f x = f e) xs = []"
  by (induction xs) auto

lemma Strip_simps [simp]:
  "identity (StripDesiredState a) = identity a"
  "tainted (StripDesiredState a) = tainted a"
  "LoadBalancers (StripDesiredState a) = LoadBalancers a"
  "desiredState (StripDesiredState a) = None"
  by (simp_all add: StripDesiredState_def)

text \<open>
  C1. In every diff cycle, an entity of the previous tracked set whose identity is absent
  from the newly built set is handled as follows. The previous set is the one the
  deletion pass walks: the set of the controller \<open>ac1\<close> that enters the building loop, which
  is the controller as the cycle found it, or, where its set was nil, the controller with
  the set the bootstrap assembled. Not tainted, with load balancers: it is
  in the next set with its desired state stripped. Not tainted, without load balancers:
  it is not in the next set. Tainted: it is not in the next set, whatever its load
  balancers. Where the identities of the previous set are unique, the stripped entity is
  the only one of its identity in the next set in the first case, and no entity of the
  next set has its identity in the other two.
\<close>

theorem deletion_eligibility:
  assumes seed: "(if ALBIngresses ac = None
                  then assembleIngresses DescribeLoadBalancers owner ac
                  else Inr (ac, [])) = Inr (ac1, lines)"
    and prev: "e \<in> set (elems (ALBIngresses ac1))"
    and absent: "identity e \<notin> identity `
      set (elems (build_loop build ac1 (Ingress_List (storeLister ac1)) None))"
  shows "\<exists>r. OnUpdate DescribeLoadBalancers owner build ac cfg = Inr r \<and>
     (\<not> tainted e \<and> LoadBalancers e \<noteq> [] \<longrightarrow>
        StripDesiredState e \<in> set (elems (ALBIngresses (controller r)))) \<and>
     (\<not> tainted e \<and> LoadBalancers e = [] \<longrightarrow>
        e \<notin> set (elems (ALBIngresses (controller r))) \<and>
        StripDesiredState e \<notin> set (elems (ALBIngresses (controller r)))) \<and>
     (tainted e \<longrightarrow>
        e \<notin> set (elems (ALBIngresses (controller r))) \<and>
        StripDesiredState e \<notin> set (elems (ALBIngresses (controller r)))) \<and>
     (distinct (map identity (elems (ALBIngresses ac1))) \<longrightarrow>
        (if \<not> tainted e \<and> LoadBalancers e \<noteq> []
         then filter (\<lambda>x. identity x = identity e) (elems (ALBIngresses (controller r))) =
                [StripDesiredState e]
         else identity e \<notin> identity ` set (elems (ALBIngresses (controller r)))))"
proof -
  let ?built = "build_loop build ac1 (Ingress_List (storeLister ac1)) None"
  let ?keep = "\<lambda>x. \<not> tainted x \<and> identity x \<notin> identity ` set (elems ?built) \<and> LoadBalancers x \<noteq> []"
  let ?next = "elems ?built @ map StripDesiredState (filter ?keep (elems (ALBIngresses ac1)))"
  define r where "r = \<lparr>controller = ac1\<lparr>ALBIngresses :=
             go_append ?built (elems (ingressToDelete ac1 ?built))\<rparr>,
          returned = None,
          logged = lines @ [Debugf ''OnUpdate event seen by ALB ingress controller.'']\<rparr>"
  have run: "OnUpdate DescribeLoadBalancers owner build ac cfg = Inr r"
    unfolding r_def by (rule OnUpdate_seeded [OF seed])
  have nxt: "elems (ALBIngresses (controller r)) = ?next"
    by (simp add: r_def elems_ingressToDelete)
  have e_not_built: "\<And>x. x \<in> set (elems ?built) \<Longrightarrow> identity x \<noteq> identity e"
    using absent by (metis imageI)
  have a: "\<not> tainted e \<and> LoadBalancers e \<noteq> [] \<longrightarrow> StripDesiredState e \<in> set ?next"
    using prev absent by auto
  have b: "\<not> tainted e \<and> LoadBalancers e = [] \<longrightarrow>
        e \<notin> set ?next \<and> StripDesiredState e \<notin> set ?next"
  proof (intro impI conjI)
    assume h: "\<not> tainted e \<and> LoadBalancers e = []"
    show "e \<notin> set ?next"
    proof
      assume "e \<in> set ?next"
      then consider "e \<in> set (elems ?built)"
        | x where "e = StripDesiredState x" "LoadBalancers x \<noteq> []" by auto
      then show False
      proof cases
        case 1 with e_not_built show False by blast
      next
        case 2
        then have "LoadBalancers e \<noteq> []" by simp
        with h show False by simp
      qed
    qed
    show "StripDesiredState e \<notin> set ?next"
    proof
      assume "StripDesiredState e \<in> set ?next"
      then consider "StripDesiredState e \<in> set (elems ?built)"
        | x where "StripDesiredState e = StripDesiredState x" "LoadBalancers x \<noteq> []" by auto
      then show False
      proof cases
        case 1 with e_not_built [of "StripDesiredState e"] show False by simp
      next
        case 2
        then have "LoadBalancers (StripDesiredState e) \<noteq> []" by simp
        with h show False by simp
      qed
    qed
  qed
  have c: "tainted e \<longrightarrow> e \<notin> set ?next \<and> StripDesiredState e \<notin> set ?next"
  proof (intro impI conjI)
    assume h: "tainted e"
    show "e \<notin> set ?next"
    proof
      assume "e \<in> set ?next"
      then consider "e \<in> set (elems ?built)"
        | x where "e = StripDesiredState x" "\<not> tainted x" by auto
      then show False
      proof cases
        case 1 with e_not_built show False by blast
      next
        case 2
        then have "\<not> tainted e" by simp
        with h show False by simp
      qed
    qed
    show "StripDesiredState e \<notin> set ?next"
    proof
      assume "StripDesiredState e \<in> set ?next"
      then consider "StripDesiredState e \<in> set (elems ?built)"
        | x where "StripDesiredState e = StripDesiredState x" "\<not> tainted x" by auto
      then show False
      proof cases
        case 1 with e_not_built [of "StripDesiredState e"] show False by simp
      next
        case 2
        then have "\<not> tainted (StripDesiredState e)" by simp
        with h show False by simp
      qed
    qed
  qed
  have d: "distinct (map identity (elems (ALBIngresses ac1))) \<longrightarrow>
        (if \<not> tainted e \<and> LoadBalancers e \<noteq> []
         then filter (\<lambda>x. identity x = identity e) ?next = [StripDesiredState e]
         else identity e \<notin> identity ` set ?next)"
  proof
    assume dist: "distinct (map identity (elems (ALBIngresses ac1)))"
    have fb: "filter (\<lambda>x. identity x = identity e) (elems ?built) = []"
      using absent by (rule filter_absent_key)
    have fp: "filter (\<lambda>x. identity x = identity e) (elems (ALBIngresses ac1)) = [e]"
      using dist prev by (rule filter_distinct_key)
    have comm: "filter (\<lambda>x. identity x = identity e) (map StripDesiredState (filter ?keep (elems (ALBIngresses ac1))))
        = map StripDesiredState (filter ?keep (filter (\<lambda>x. identity x = identity e) (elems (ALBIngresses ac1))))"
      by (simp add: filter_map o_def conj_commute)
    have fn: "filter (\<lambda>x. identity x = identity e) ?next = map StripDesiredState (filter ?keep [e])"
      using fb comm fp by simp
    show "if \<not> tainted e \<and> LoadBalancers e \<noteq> []
         then filter (\<lambda>x. identity x = identity e) ?next = [StripDesiredState e]
         else identity e \<notin> identity ` set ?next"
    proof (cases "\<not> tainted e \<and> LoadBalancers e \<noteq> []")
      case True
      with fn absent have h: "filter (\<lambda>x. identity x = identity e) ?next = [StripDesiredState e]"
        by simp
      show ?thesis by (subst if_P [OF True]) (rule h)
    next
      case False
      with fn have "filter (\<lambda>x. identity x = identity e) ?next = []" by auto
      then have h: "identity e \<notin> identity ` set ?next"
        unfolding filter_empty_conv by (metis (mono_tags, lifting) image_iff)
      show ?thesis by (subst if_not_P [OF False]) (rule h)
    qed
  qed
  from run a b c d show ?thesis unfolding nxt [symmetric] by blast
qed

theorem deletion_eligibility_witness:
  "(if ALBIngresses tracking = None then assembleIngresses no_cloud no_owner tracking
    else Inr (tracking, [])) = Inr (tracking, []) \<and>
   foo \<in> set (elems (ALBIngresses tracking)) \<and>
   identity foo \<notin> identity `
     set (elems (build_loop sample_build tracking (Ingress_List (storeLister tracking)) None)) \<and>
   \<not> tainted foo \<and> LoadBalancers foo \<noteq> [] \<and>
   distinct (map identity (elems (ALBIngresses tracking))) \<and>
   (\<exists>r. OnUpdate no_cloud no_owner sample_build tracking () = Inr r \<and>
        StripDesiredState foo \<in> set (elems (ALBIngresses (controller r))) \<and>
        filter (\<lambda>x. identity x = identity foo) (elems (ALBIngresses (controller r))) =
          [StripDesiredState foo]) \<and>
   ALBIngresses cold = None \<and>
   (if ALBIngresses cold = None then assembleIngresses one_lb foo_owner cold
    else Inr (cold, [])) =
     Inr (seeded, [Infof ''Build up list of existing ingresses'' [],
                   Infof ''Assembled %d ingresses from existing AWS resources'' [1]]) \<and>
   orphan \<in> set (elems (ALBIngresses seeded)) \<and>
   identity orphan \<notin> identity `
     set (elems (build_loop sample_build seeded (Ingress_List (storeLister seeded)) None)) \<and>
   \<not> tainted orphan \<and> LoadBalancers orphan \<noteq> [] \<and>
   (\<exists>r. OnUpdate one_lb foo_owner sample_build cold () = Inr r \<and>
        StripDesiredState orphan \<in> set (elems (ALBIngresses (controller r))))"
proof -
  have h0: "(if ALBIngresses tracking = None then assembleIngresses no_cloud no_owner tracking
      else Inr (tracking, [])) = Inr (tracking, [])"
    by (simp add: tracking_def)
  have h1: "foo \<in> set (elems (ALBIngresses tracking))"
    by (simp add: tracking_def)
  have h2: "identity foo \<notin> identity `
      set (elems (build_loop sample_build tracking (Ingress_List (storeLister tracking)) None))"
    by (simp add: tracking_def no_specs_def)
  have h3: "\<not> tainted foo \<and> LoadBalancers foo \<noteq> []"
    by (simp add: foo_def)
  have h4: "distinct (map identity (elems (ALBIngresses tracking)))"
    by (simp add: tracking_def foo_def gone_def bar_def)
  from deletion_eligibility [OF h0 h1 h2, of "()"] h3 h4
  have warm: "\<exists>r. OnUpdate no_cloud no_owner sample_build tracking () = Inr r \<and>
        StripDesiredState foo \<in> set (elems (ALBIngresses (controller r))) \<and>
        filter (\<lambda>x. identity x = identity foo) (elems (ALBIngresses (controller r))) =
          [StripDesiredState foo]"
    by (metis (no_types, lifting))
  have c0: "ALBIngresses cold = None"
    by (simp add: cold_def)
  have c1: "(if ALBIngresses cold = None then assembleIngresses one_lb foo_owner cold
      else Inr (cold, [])) =
     Inr (seeded, [Infof ''Build up list of existing ingresses'' [],
                   Infof ''Assembled %d ingresses from existing AWS resources'' [1]])"
    by (simp add: assembleIngresses_def assemble_one_def NewALBIngressFromLoadBalancer_def
        one_lb_def foo_owner_def cold_def seeded_def orphan_def find_ingress_def go_append_def)
  have c2: "orphan \<in> set (elems (ALBIngresses seeded))"
    by (simp add: seeded_def)
  have c3: "identity orphan \<notin> identity `
      set (elems (build_loop sample_build seeded (Ingress_List (storeLister seeded)) None))"
    by (simp add: seeded_def cold_def no_specs_def)
  have c4: "\<not> tainted orphan \<and> LoadBalancers orphan \<noteq> []"
    by (simp add: orphan_def)
  from deletion_eligibility [OF c1 c2 c3, of "()"] c4
  have cold: "\<exists>r. OnUpdate one_lb foo_owner sample_build cold () = Inr r \<and>
        StripDesiredState orphan \<in> set (elems (ALBIngresses (controller r)))"
    by (metis (no_types, lifting))
  from h0 h1 h2 h3 h4 warm c0 c1 c2 c3 c4 cold show ?thesis by blast
qed

section \<open>The class filter: properties\<close>





section \<open>The backend port resolver: properties\<close>

lemma find_port_first:
  "port \<notin> Port ` set pre \<Longrightarrow> Port p = port \<Longrightarrow>
   List.find (\<lambda>p. Port p = port) (pre @ p # post) = Some p"
  by (induction pre) auto

lemma find_port_none:
  "port \<notin> Port ` set xs \<Longrightarrow> List.find (\<lambda>p. Port p = port) xs = None"
  by (induction xs) auto

text \<open>
  C7. \<open>GetServiceNodePort\<close> returns an error when the service does not exist, an error
  when it exists and is not of type NodePort, an error when no declared port of the
  service has the requested number, and otherwise the node port of the first declared
  port with the requested number, widened to 64 bits with its value unchanged.
\<close>

theorem GetServiceNodePort_cases:
  "(Service_GetByKey (storeLister ac) key = None \<longrightarrow>
      GetServiceNodePort ac key port = Inl (''Unable to find the '' @ key @ '' service'')) \<and>
   (Service_GetByKey (storeLister ac) key = Some svc \<and> Type svc \<noteq> ''NodePort'' \<longrightarrow>
      GetServiceNodePort ac key port = Inl (key @ '' service is not of type NodePort'')) \<and>
   (Service_GetByKey (storeLister ac) key = Some svc \<and> Type svc = ''NodePort'' \<and>
    port \<notin> Port ` set (Ports svc) \<longrightarrow>
      GetServiceNodePort ac key port =
        Inl (''Unable to find a port defined in the '' @ key @ '' service'')) \<and>
   (Service_GetByKey (storeLister ac) key = Some svc \<and> Type svc = ''NodePort'' \<and>
    Ports svc = pre @ p # post \<and> port \<notin> Port ` set pre \<and> Port p = port \<longrightarrow>
      GetServiceNodePort ac key port = Inr (scast (NodePort p)) \<and>
      sint (scast (NodePort p) :: 64 word) = sint (NodePort p))"
proof (intro conjI impI)
  assume "Service_GetByKey (storeLister ac) key = None"
  then show "GetServiceNodePort ac key port = Inl (''Unable to find the '' @ key @ '' service'')"
    by (simp add: GetServiceNodePort_def)
next
  assume "Service_GetByKey (storeLister ac) key = Some svc \<and> Type svc \<noteq> ''NodePort''"
  then show "GetServiceNodePort ac key port = Inl (key @ '' service is not of type NodePort'')"
    by (simp add: GetServiceNodePort_def ServiceTypeNodePort_def)
next
  assume "Service_GetByKey (storeLister ac) key = Some svc \<and> Type svc = ''NodePort'' \<and>
    port \<notin> Port ` set (Ports svc)"
  then show "GetServiceNodePort ac key port =
      Inl (''Unable to find a port defined in the '' @ key @ '' service'')"
    by (simp add: GetServiceNodePort_def ServiceTypeNodePort_def find_port_none)
next
  assume "Service_GetByKey (storeLister ac) key = Some svc \<and> Type svc = ''NodePort'' \<and>
    Ports svc = pre @ p # post \<and> port \<notin> Port ` set pre \<and> Port p = port"
  then show "GetServiceNodePort ac key port = Inr (scast (NodePort p))"
    by (simp add: GetServiceNodePort_def ServiceTypeNodePort_def find_port_first)
next
  show "sint (scast (NodePort p) :: 64 word) = sint (NodePort p)"
    by (rule int64_of_int32)
qed

theorem GetServiceNodePort_cases_witness:
  "Service_GetByKey (storeLister serving) ''ns/web'' = Some web \<and> Type web = ''NodePort'' \<and>
   Ports web = [\<lparr>Port = 443, NodePort = 30443\<rparr>] @ \<lparr>Port = 80, NodePort = 30080\<rparr> #
     [\<lparr>Port = 80, NodePort = 31080\<rparr>] \<and>
   (80 :: 32 word) \<notin> Port ` set [\<lparr>Port = 443, NodePort = 30443\<rparr>] \<and>
   GetServiceNodePort serving ''ns/web'' 80 = Inr 30080 \<and>
   Service_GetByKey (storeLister serving) ''ns/db'' = None \<and>
   GetServiceNodePort serving ''ns/db'' 80 = Inl ''Unable to find the ns/db service'' \<and>
   (8080 :: 32 word) \<notin> Port ` set (Ports web) \<and>
   GetServiceNodePort serving ''ns/web'' 8080 =
     Inl ''Unable to find a port defined in the ns/web service''"
proof -
  have a: "Service_GetByKey (storeLister serving) ''ns/web'' = Some web"
    by (simp add: serving_def)
  have b: "Type web = ''NodePort''"
    by (simp add: web_def)
  have c: "Ports web = [\<lparr>Port = 443, NodePort = 30443\<rparr>] @ \<lparr>Port = 80, NodePort = 30080\<rparr> #
     [\<lparr>Port = 80, NodePort = 31080\<rparr>]"
    by (simp add: web_def)
  have d: "(80 :: 32 word) \<notin> Port ` set [\<lparr>Port = 443, NodePort = 30443\<rparr>]"
    by simp
  have e: "Service_GetByKey (storeLister serving) ''ns/db'' = None"
    by (simp add: serving_def)
  have f: "(8080 :: 32 word) \<notin> Port ` set (Ports web)"
    by (simp add: web_def)
  from a b c d
    GetServiceNodePort_cases [of serving "''ns/web''" 80 web "[\<lparr>Port = 443, NodePort = 30443\<rparr>]"
      "\<lparr>Port = 80, NodePort = 30080\<rparr>" "[\<lparr>Port = 80, NodePort = 31080\<rparr>]"]
  have g: "GetServiceNodePort serving ''ns/web'' 80 = Inr 30080"
    by simp
  from e GetServiceNodePort_cases [of serving "''ns/db''" 80]
  have h: "GetServiceNodePort serving ''ns/db'' 80 = Inl ''Unable to find the ns/db service''"
    by simp
  from a b f GetServiceNodePort_cases [of serving "''ns/web''" 8080 web]
  have i: "GetServiceNodePort serving ''ns/web'' 8080 =
     Inl ''Unable to find a port defined in the ns/web service''"
    by simp
  from a b c d e f g h i show ?thesis by blast
qed

section \<open>Startup: properties\<close>

text \<open>
  C10. The process exits before the ingress controller starts whenever the cluster name
  is empty or longer than 11 characters; the controller starts exactly for the names of
  1 to 11 characters.
\<close>

theorem main_cluster_name:
  "(main clusterName = Started \<longleftrightarrow> 1 \<le> length clusterName \<and> length clusterName \<le> 11) \<and>
   ((clusterName = [] \<or> 11 < length clusterName) \<longleftrightarrow> (\<exists>msg. main clusterName = Exit msg))"
  by (cases clusterName) (auto simp: main_def)

theorem main_cluster_name_witness:
  "main ''k8s'' = Started \<and> main ''production-east'' \<noteq> Started \<and> main [] \<noteq> Started \<and>
   main ''elevenchars'' = Started \<and> main ''twelve-chars'' \<noteq> Started"
  using main_cluster_name [of "''k8s''"] main_cluster_name [of "''production-east''"]
    main_cluster_name [of "[]"] main_cluster_name [of "''elevenchars''"]
    main_cluster_name [of "''twelve-chars''"]
  by simp

section \<open>Tainted entities\<close>

lemma filter_identity_next:
  assumes "distinct (map identity prev)" and "e \<in> set prev"
    and "identity e \<notin> identity ` set built"
  shows "filter (\<lambda>x. identity x = identity e)
           (built @ map StripDesiredState (filter keep prev)) =
         map StripDesiredState (filter keep [e])"
proof -
  have fb: "filter (\<lambda>x. identity x = identity e) built = []"
    using assms(3) by (rule filter_absent_key)
  have fp: "filter (\<lambda>x. identity x = identity e) prev = [e]"
    using assms(1,2) by (rule filter_distinct_key)
  have "filter (\<lambda>x. identity x = identity e) (map StripDesiredState (filter keep prev))
        = map StripDesiredState (filter keep (filter (\<lambda>x. identity x = identity e) prev))"
    by (simp add: filter_map o_def conj_commute)
  with fb fp show ?thesis by simp
qed

text \<open>
  C2, as the code has it. A tainted entity of the previous tracked set whose identity is
  absent from the newly built set is not retained: the deletion pass skips it, so it is
  never marked for teardown, and nothing else carries it over. It is not in the next set,
  no entity of the next set with its identity is tainted, and where the identities of the
  previous set are unique no entity of the next set has its identity.
\<close>

theorem tainted_absent_dropped:
  assumes prev: "e \<in> set (elems (ALBIngresses ac))"
    and taint: "tainted e"
    and absent: "identity e \<notin> identity `
      set (elems (build_loop build ac (Ingress_List (storeLister ac)) None))"
  shows "\<exists>r. OnUpdate DescribeLoadBalancers owner build ac cfg = Inr r \<and>
     (\<forall>x \<in> set (elems (ingressToDelete ac
          (build_loop build ac (Ingress_List (storeLister ac)) None))). \<not> tainted x) \<and>
     e \<notin> set (elems (ALBIngresses (controller r))) \<and>
     (\<forall>x \<in> set (elems (ALBIngresses (controller r))).
        identity x = identity e \<longrightarrow> \<not> tainted x \<and> desiredState x = None) \<and>
     (distinct (map identity (elems (ALBIngresses ac))) \<longrightarrow>
        identity e \<notin> identity ` set (elems (ALBIngresses (controller r))))"
proof -
  let ?built = "build_loop build ac (Ingress_List (storeLister ac)) None"
  let ?keep = "\<lambda>x. \<not> tainted x \<and> identity x \<notin> identity ` set (elems ?built) \<and> LoadBalancers x \<noteq> []"
  let ?next = "elems ?built @ map StripDesiredState (filter ?keep (elems (ALBIngresses ac)))"
  from prev have init: "ALBIngresses ac \<noteq> None" by (cases "ALBIngresses ac") auto
  define r where "r = \<lparr>controller = ac\<lparr>ALBIngresses :=
             go_append ?built (elems (ingressToDelete ac ?built))\<rparr>,
          returned = None,
          logged = [Debugf ''OnUpdate event seen by ALB ingress controller.'']\<rparr>"
  have run: "OnUpdate DescribeLoadBalancers owner build ac cfg = Inr r"
    unfolding r_def by (rule OnUpdate_initialized [OF init])
  have nxt: "elems (ALBIngresses (controller r)) = ?next"
    by (simp add: r_def elems_ingressToDelete)
  have a: "\<forall>x \<in> set (elems (ingressToDelete ac ?built)). \<not> tainted x"
    by (auto simp: elems_ingressToDelete)
  have same: "\<And>x. x \<in> set ?next \<Longrightarrow> identity x = identity e \<Longrightarrow>
      \<not> tainted x \<and> desiredState x = None"
  proof -
    fix x assume x: "x \<in> set ?next" and i: "identity x = identity e"
    from i absent have "x \<notin> set (elems ?built)" by (metis imageI)
    with x obtain y where "x = StripDesiredState y" and "\<not> tainted y" by auto
    then show "\<not> tainted x \<and> desiredState x = None" by simp
  qed
  have b: "e \<notin> set ?next"
    using same [of e] taint by blast
  have c: "\<forall>x \<in> set ?next. identity x = identity e \<longrightarrow> \<not> tainted x \<and> desiredState x = None"
    using same by blast
  have d: "distinct (map identity (elems (ALBIngresses ac))) \<longrightarrow>
      identity e \<notin> identity ` set ?next"
  proof
    assume dist: "distinct (map identity (elems (ALBIngresses ac)))"
    from filter_identity_next [OF dist prev absent, of ?keep] taint
    have "filter (\<lambda>x. identity x = identity e) ?next = []" by simp
    then show "identity e \<notin> identity ` set ?next"
      unfolding filter_empty_conv by (metis (mono_tags, lifting) image_iff)
  qed
  from run a b c d show ?thesis unfolding nxt [symmetric] by blast
qed

theorem tainted_absent_dropped_witness:
  "bar \<in> set (elems (ALBIngresses tracking)) \<and> tainted bar \<and>
   identity bar \<notin> identity `
     set (elems (build_loop sample_build tracking (Ingress_List (storeLister tracking)) None)) \<and>
   distinct (map identity (elems (ALBIngresses tracking))) \<and>
   (\<exists>r. OnUpdate no_cloud no_owner sample_build tracking () = Inr r \<and>
        identity bar \<notin> identity ` set (elems (ALBIngresses (controller r))))"
proof -
  have h1: "bar \<in> set (elems (ALBIngresses tracking))"
    by (simp add: tracking_def)
  have h2: "tainted bar"
    by (simp add: bar_def)
  have h3: "identity bar \<notin> identity `
      set (elems (build_loop sample_build tracking (Ingress_List (storeLister tracking)) None))"
    by (simp add: tracking_def no_specs_def)
  have h4: "distinct (map identity (elems (ALBIngresses tracking)))"
    by (simp add: tracking_def foo_def gone_def bar_def)
  from tainted_absent_dropped [OF h1 h2 h3, of no_cloud no_owner "()"] h4
  have "\<exists>r. OnUpdate no_cloud no_owner sample_build tracking () = Inr r \<and>
        identity bar \<notin> identity ` set (elems (ALBIngresses (controller r)))"
    by (metis (no_types, lifting))
  with h1 h2 h3 h4 show ?thesis by blast
qed

text \<open>
  The claim C2 as written fails: with the tainted entity \<open>ns/bar\<close> tracked and no ingress
  resource in the cluster, the next tracked set is nil.
\<close>

theorem tainted_retained_counterexample:
  "bar \<in> set (elems (ALBIngresses tainted_only)) \<and> tainted bar \<and>
   Ingress_List (storeLister tainted_only) = [] \<and>
   OnUpdate no_cloud no_owner sample_build tainted_only () =
     Inr \<lparr>controller = tainted_only\<lparr>ALBIngresses := None\<rparr>, returned = None,
          logged = [Debugf ''OnUpdate event seen by ALB ingress controller.'']\<rparr> \<and>
   bar \<notin> set (elems (ALBIngresses (controller (projr
     (OnUpdate no_cloud no_owner sample_build tainted_only ())))))"
  by (simp add: OnUpdate_def tainted_only_def no_specs_def ingressToDelete_def bar_def)

section \<open>Bootstrap: properties\<close>

text \<open>
  C3. Two discovered load balancers \<open>l1\<close> and \<open>l2\<close> of the same identity give one entity,
  but the entity holds \<open>l1\<close> twice and not \<open>l2\<close>: the merge appends the first load balancer
  of the entity found in the set, after the variable of the new entity has been
  overwritten with it.
\<close>

theorem assembleIngresses_repeats_first_handle:
  "assembleIngresses (\<lambda>clusterName. Inr [l1, l2]) (\<lambda>clusterName loadBalancer. Some i) ac =
     Inr (ac\<lparr>ALBIngresses :=
            Some [\<lparr>identity = i, desiredState = None, LoadBalancers = [l1, l1],
                   tainted = False\<rparr>]\<rparr>,
          [Infof ''Build up list of existing ingresses'' [],
           Infof ''Assembled %d ingresses from existing AWS resources'' [1]])"
  by (simp add: assembleIngresses_def assemble_one_def NewALBIngressFromLoadBalancer_def
      find_ingress_def go_append_def)

text \<open>
  C5. When the listing of the load balancers fails during the bootstrap, the process ends
  with a fatal error that carries the listing's error: \<open>assembleIngresses\<close> does, and so
  does the cycle that called it.
\<close>

theorem listing_failure_is_fatal:
  assumes "ALBIngresses ac = None"
    and "DescribeLoadBalancers (ClusterName ac) = Inl err"
  shows "assembleIngresses DescribeLoadBalancers owner ac = Inl (Fatal err) \<and>
         OnUpdate DescribeLoadBalancers owner build ac cfg = Inl (Fatal err)"
  using assms by (simp add: assembleIngresses_def OnUpdate_def)

theorem listing_failure_is_fatal_witness:
  "ALBIngresses cold = None \<and> cloud_down (ClusterName cold) = Inl ''RequestError: send request failed'' \<and>
   OnUpdate cloud_down no_owner sample_build cold () = Inl (Fatal ''RequestError: send request failed'')"
proof -
  have h1: "ALBIngresses cold = None" by (simp add: cold_def)
  have h2: "cloud_down (ClusterName cold) = Inl ''RequestError: send request failed''"
    by (simp add: cloud_down_def)
  from listing_failure_is_fatal [where ac = cold and DescribeLoadBalancers = cloud_down
      and owner = no_owner and build = sample_build and cfg = "()", OF h1 h2] h1 h2
  show ?thesis by simp
qed

lemma loaded_None [simp]: "loaded None"
  by (simp add: loaded_def)

lemma find_ingress_hit:
  assumes "0 \<le> find_ingress s b"
  shows "nat (find_ingress s b) < length (elems s)"
  using find_from_hit [of 0 "elems s" b] assms by (simp add: find_ingress_def)

lemma merge_step:
  "LoadBalancers old \<noteq> [] \<Longrightarrow>
   \<exists>l0. (case LoadBalancers old of
           [] \<Rightarrow> Inl IndexOutOfRange
         | l0 # _ \<Rightarrow> Inr (Some (xs[n := old\<lparr>LoadBalancers := LoadBalancers old @ [l0]\<rparr>]))) =
        (Inr (Some (xs[n := old\<lparr>LoadBalancers := LoadBalancers old @ [l0]\<rparr>]))
          :: failure + ('d, 'l) ALBIngressesT)"
  by (cases "LoadBalancers old") auto

lemma loaded_update:
  assumes "loaded (Some xs)" and "n < length xs" and "LoadBalancers new \<noteq> []"
  shows "loaded (Some (xs[n := new]))"
proof -
  from assms(2) have ne: "xs[n := new] \<noteq> []" by auto
  from assms(1) have old: "\<And>x. x \<in> set xs \<Longrightarrow> LoadBalancers x \<noteq> []"
    by (simp add: loaded_def)
  have "\<And>x. x \<in> set (xs[n := new]) \<Longrightarrow> LoadBalancers x \<noteq> []"
  proof -
    fix x assume "x \<in> set (xs[n := new])"
    with set_update_subset_insert [of xs n new] have "x \<in> insert new (set xs)"
      by (rule subsetD)
    then have "x = new \<or> x \<in> set xs" by simp
    with old assms(3) show "LoadBalancers x \<noteq> []" by blast
  qed
  with ne show ?thesis by (simp add: loaded_def proper_def)
qed

lemma assemble_one_miss:
  assumes "NewALBIngressFromLoadBalancer owner clusterName loadBalancer = Some new"
    and "\<not> 0 \<le> find_ingress s new"
  shows "assemble_one owner clusterName s loadBalancer = Inr (go_append s [new])"
  using assms by (simp add: assemble_one_def)

lemma assemble_one_hit:
  assumes "NewALBIngressFromLoadBalancer owner clusterName loadBalancer = Some new"
    and "0 \<le> find_ingress s new"
    and "n = nat (find_ingress s new)" and "old = elems s ! n"
  shows "assemble_one owner clusterName s loadBalancer =
     (case LoadBalancers old of
        [] \<Rightarrow> Inl IndexOutOfRange
      | l0 # _ \<Rightarrow> Inr (Some ((elems s)[n := old\<lparr>LoadBalancers := LoadBalancers old @ [l0]\<rparr>])))"
  unfolding assemble_one_def assms(1) option.case Let_def if_P [OF assms(2)] assms(3,4)
  by (rule refl)

lemma assemble_one_ok:
  fixes s :: "('d, 'l) ALBIngressesT"
  assumes "loaded s"
  shows "\<exists>s'. assemble_one owner clusterName s loadBalancer = Inr s' \<and> loaded s'"
proof (cases "NewALBIngressFromLoadBalancer owner clusterName loadBalancer
    :: ('d, 'l) ALBIngress option")
  case None
  then have "assemble_one owner clusterName s loadBalancer = Inr s"
    by (simp add: assemble_one_def)
  with assms show ?thesis by simp
next
  case (Some new)
  then have lb_new: "LoadBalancers new \<noteq> []"
    by (auto simp: NewALBIngressFromLoadBalancer_def split: option.splits)
  show ?thesis
  proof (cases "0 \<le> find_ingress s new")
    case False
    from assms lb_new have "loaded (go_append s [new])"
      by (simp add: loaded_def proper_go_append)
    with assemble_one_miss [OF Some False] show ?thesis by simp
  next
    case True
    define n where "n = nat (find_ingress s new)"
    define old where "old = elems s ! n"
    from find_ingress_hit [OF True] have n: "n < length (elems s)"
      by (simp add: n_def)
    then have s: "s = Some (elems s)"
      by (cases s) simp_all
    from n have "old \<in> set (elems s)" by (simp add: old_def)
    with assms have ne: "LoadBalancers old \<noteq> []" by (simp add: loaded_def)
    from merge_step [OF ne, of "elems s" n] obtain l0
      where "(case LoadBalancers old of
           [] \<Rightarrow> Inl IndexOutOfRange
         | l0 # _ \<Rightarrow> Inr (Some ((elems s)[n := old\<lparr>LoadBalancers := LoadBalancers old @ [l0]\<rparr>]))) =
        (Inr (Some ((elems s)[n := old\<lparr>LoadBalancers := LoadBalancers old @ [l0]\<rparr>]))
          :: failure + ('d, 'l) ALBIngressesT)" ..
    with assemble_one_hit [OF Some True n_def old_def]
    have res: "assemble_one owner clusterName s loadBalancer =
        Inr (Some ((elems s)[n := old\<lparr>LoadBalancers := LoadBalancers old @ [l0]\<rparr>]))"
      by (rule trans)
    from assms s have "loaded (Some (elems s))" by simp
    from loaded_update [OF this n, of "old\<lparr>LoadBalancers := LoadBalancers old @ [l0]\<rparr>"]
    have "loaded (Some ((elems s)[n := old\<lparr>LoadBalancers := LoadBalancers old @ [l0]\<rparr>]))"
      by simp
    with res show ?thesis by simp
  qed
qed

lemma assemble_loop_ok:
  "loaded s \<Longrightarrow> \<exists>s'. assemble_loop owner clusterName s lbs = Inr s' \<and> loaded s'"
proof (induction lbs arbitrary: s)
  case Nil
  then show ?case by simp
next
  case (Cons lb lbs)
  from assemble_one_ok [OF Cons.prems, of owner clusterName lb]
  obtain s1 where s1: "assemble_one owner clusterName s lb = Inr s1" and l1: "loaded s1"
    by blast
  from Cons.IH [OF l1] s1 show ?case by simp
qed

lemma assembleIngresses_ok:
  fixes ac :: "('d, 'l) ALBController"
  assumes "DescribeLoadBalancers (ClusterName ac) = Inr lbs"
  shows "\<exists>s. proper s \<and> assembleIngresses DescribeLoadBalancers owner ac =
           Inr (ac\<lparr>ALBIngresses := s\<rparr>,
                [Infof ''Build up list of existing ingresses'' [],
                 Infof ''Assembled %d ingresses from existing AWS resources''
                   [length (elems s)]])"
proof -
  have "loaded (None :: ('d, 'l) ALBIngressesT)" by simp
  from assemble_loop_ok [OF this, of owner "ClusterName ac" lbs]
  obtain s :: "('d, 'l) ALBIngressesT"
    where run: "assemble_loop owner (ClusterName ac) None lbs = Inr s" and "loaded s"
    by blast
  then have "proper s" by (simp add: loaded_def)
  moreover from assms run have "assembleIngresses DescribeLoadBalancers owner ac =
           Inr (ac\<lparr>ALBIngresses := s\<rparr>,
                [Infof ''Build up list of existing ingresses'' [],
                 Infof ''Assembled %d ingresses from existing AWS resources''
                   [length (elems s)]])"
    by (simp add: assembleIngresses_def)
  ultimately show ?thesis by blast
qed

lemma proper_next:
  "proper (go_append (build_loop build ac specs None) ys)"
  by (simp add: proper_go_append proper_build_loop)

lemma OnUpdate_cold:
  assumes "ALBIngresses ac = None" and "DescribeLoadBalancers (ClusterName ac) = Inr lbs"
  shows "\<exists>r. OnUpdate DescribeLoadBalancers owner build ac cfg = Inr r \<and> returned r = None \<and>
           bootstrap_ran r \<and> proper (ALBIngresses (controller r))"
proof -
  from assembleIngresses_ok [where ac = ac and DescribeLoadBalancers = DescribeLoadBalancers
      and owner = owner, OF assms(2)]
  obtain s where "assembleIngresses DescribeLoadBalancers owner ac =
           Inr (ac\<lparr>ALBIngresses := s\<rparr>,
                [Infof ''Build up list of existing ingresses'' [],
                 Infof ''Assembled %d ingresses from existing AWS resources''
                   [length (elems s)]])"
    by blast
  with assms(1) show ?thesis
    by (simp add: OnUpdate_def Let_def bootstrap_ran_def proper_next proper_build_loop)
qed

lemma OnUpdate_warm:
  assumes "ALBIngresses ac \<noteq> None"
  shows "\<exists>r. OnUpdate DescribeLoadBalancers owner build ac cfg = Inr r \<and> returned r = None \<and>
           \<not> bootstrap_ran r \<and> proper (ALBIngresses (controller r))"
  unfolding OnUpdate_initialized [OF assms]
  by (simp add: bootstrap_ran_def proper_next)

lemma OnUpdate_outcome:
  "(\<exists>r. OnUpdate DescribeLoadBalancers owner build ac cfg = Inr r \<and> returned r = None \<and>
        (bootstrap_ran r \<longleftrightarrow> ALBIngresses ac = None) \<and> proper (ALBIngresses (controller r))) \<or>
   (\<exists>err. OnUpdate DescribeLoadBalancers owner build ac cfg = Inl (Fatal err) \<and>
        ALBIngresses ac = None \<and> DescribeLoadBalancers (ClusterName ac) = Inl err)"
proof (cases "ALBIngresses ac = None")
  case False
  from OnUpdate_warm [OF False, of DescribeLoadBalancers owner build cfg]
  obtain r where "OnUpdate DescribeLoadBalancers owner build ac cfg = Inr r"
    and "returned r = None" and "\<not> bootstrap_ran r" and "proper (ALBIngresses (controller r))"
    by blast
  with False show ?thesis by simp
next
  case True
  show ?thesis
  proof (cases "DescribeLoadBalancers (ClusterName ac)")
    case (Inl err)
    with True have "OnUpdate DescribeLoadBalancers owner build ac cfg = Inl (Fatal err)"
      by (simp add: OnUpdate_def assembleIngresses_def)
    with True Inl show ?thesis by blast
  next
    case (Inr lbs)
    from OnUpdate_cold [where ac = ac and DescribeLoadBalancers = DescribeLoadBalancers
        and owner = owner and build = build and cfg = cfg, OF True Inr]
    obtain r where "OnUpdate DescribeLoadBalancers owner build ac cfg = Inr r"
      and "returned r = None" and "bootstrap_ran r" and "proper (ALBIngresses (controller r))"
      by blast
    with True show ?thesis by simp
  qed
qed

lemma Reload_nil_iff:
  "ALBIngresses ((fst (Reload reconcile ac data))\<lparr>storeLister := sl\<rparr>) = None \<longleftrightarrow>
   ALBIngresses ac = None"
  by (simp add: Reload_def)

text \<open>
  C4, as the code has it. A cycle runs the bootstrap if and only if the tracked set is nil
  when the cycle starts (a cycle that ends the process can only be one that ran it). The
  set a cycle leaves is nil exactly when it has no element, so the next cycle, after any
  \<open>Reload\<close> and any change of the listers, runs the bootstrap again if and only if the
  cycle before it left no entity.
\<close>

theorem bootstrap_runs_when_nil:
  "(\<forall>f. OnUpdate DescribeLoadBalancers owner build ac cfg = Inl f \<longrightarrow> ALBIngresses ac = None) \<and>
   (\<forall>r. OnUpdate DescribeLoadBalancers owner build ac cfg = Inr r \<longrightarrow>
      (bootstrap_ran r \<longleftrightarrow> ALBIngresses ac = None) \<and>
      (ALBIngresses (controller r) = None \<longleftrightarrow> elems (ALBIngresses (controller r)) = []) \<and>
      (\<forall>r'. OnUpdate DescribeLoadBalancers' owner' build'
              ((fst (Reload reconcile (controller r) data))\<lparr>storeLister := sl\<rparr>) cfg' = Inr r' \<longrightarrow>
         (bootstrap_ran r' \<longleftrightarrow> elems (ALBIngresses (controller r)) = [])))"
proof (intro conjI allI impI)
  fix f assume "OnUpdate DescribeLoadBalancers owner build ac cfg = Inl f"
  with OnUpdate_outcome [of DescribeLoadBalancers owner build ac cfg]
  show "ALBIngresses ac = None" by auto
next
  fix r assume r: "OnUpdate DescribeLoadBalancers owner build ac cfg = Inr r"
  with OnUpdate_outcome [of DescribeLoadBalancers owner build ac cfg]
  have ran: "bootstrap_ran r \<longleftrightarrow> ALBIngresses ac = None"
    and pr: "proper (ALBIngresses (controller r))" by auto
  show "bootstrap_ran r \<longleftrightarrow> ALBIngresses ac = None" by (rule ran)
  show nil: "ALBIngresses (controller r) = None \<longleftrightarrow> elems (ALBIngresses (controller r)) = []"
    by (rule proper_nil_iff [OF pr])
  fix r'
  let ?ac2 = "(fst (Reload reconcile (controller r) data))\<lparr>storeLister := sl\<rparr>"
  assume "OnUpdate DescribeLoadBalancers' owner' build' ?ac2 cfg' = Inr r'"
  with OnUpdate_outcome [of DescribeLoadBalancers' owner' build' ?ac2 cfg']
  have "bootstrap_ran r' \<longleftrightarrow> ALBIngresses ?ac2 = None" by auto
  then show "bootstrap_ran r' \<longleftrightarrow> elems (ALBIngresses (controller r)) = []"
    unfolding Reload_nil_iff nil .
qed

theorem bootstrap_runs_when_nil_witness:
  "ALBIngresses cold = None \<and>
   OnUpdate one_lb foo_owner sample_build cold () = Inr first_cycle \<and>
   bootstrap_ran first_cycle \<and>
   elems (ALBIngresses (controller first_cycle)) \<noteq> [] \<and>
   OnUpdate one_lb foo_owner sample_build
     ((fst (Reload teardown (controller first_cycle) []))\<lparr>storeLister := no_specs\<rparr>) () =
     Inr second_cycle \<and>
   \<not> bootstrap_ran second_cycle"
proof -
  have h0: "ALBIngresses cold = None"
    by (simp add: cold_def)
  have h1: "OnUpdate one_lb foo_owner sample_build cold () = Inr first_cycle"
    by (simp add: OnUpdate_def assembleIngresses_def assemble_one_def
        NewALBIngressFromLoadBalancer_def one_lb_def foo_owner_def cold_def no_specs_def
        first_cycle_def find_ingress_def go_append_def ingressToDelete_def
        StripDesiredState_def)
  have h2: "OnUpdate one_lb foo_owner sample_build
     ((fst (Reload teardown (controller first_cycle) []))\<lparr>storeLister := no_specs\<rparr>) () =
     Inr second_cycle"
    by (simp add: OnUpdate_def Reload_def teardown_def cold_def no_specs_def first_cycle_def
        second_cycle_def find_ingress_def ingressToDelete_def)
  have h3: "elems (ALBIngresses (controller first_cycle)) \<noteq> []"
    by (simp add: first_cycle_def)
  note inst = bootstrap_runs_when_nil [where ac = cold and DescribeLoadBalancers = one_lb
      and owner = foo_owner and build = sample_build and cfg = "()",
      THEN conjunct2, rule_format, OF h1]
  from inst [THEN conjunct1] h0 have a: "bootstrap_ran first_cycle" by simp
  from inst [THEN conjunct2, THEN conjunct2, rule_format, OF h2] h3
  have b: "\<not> bootstrap_ran second_cycle" by simp
  from h0 h1 a h3 h2 b show ?thesis by blast
qed

text \<open>
  The claim C4 as written fails: with no load balancer in the cloud and no ingress
  resource in the cluster, a cycle that ran the bootstrap leaves the tracked set nil, and
  the cycle after it runs the bootstrap again.
\<close>

theorem bootstrap_once_counterexample:
  "ALBIngresses cold = None \<and>
   OnUpdate no_cloud no_owner sample_build cold () = Inr idle_cycle \<and>
   bootstrap_ran idle_cycle \<and>
   OnUpdate no_cloud no_owner sample_build (controller idle_cycle) () = Inr idle_cycle"
  by (simp add: OnUpdate_def assembleIngresses_def no_cloud_def cold_def no_specs_def
      idle_cycle_def ingressToDelete_def bootstrap_ran_def)

section \<open>Failures of one entity\<close>

text \<open>
  C9. \<open>Reload\<close> returns an empty byte slice, \<open>true\<close> and no error, whatever \<open>Reconcile\<close>
  does to the entities. \<open>OnUpdate\<close> returns no error whenever it returns, whatever the
  builder yields for the ingress resources; it does not return only when the tracked set
  is nil and the listing of the bootstrap fails, and it returns whenever the set is
  initialised or the listing succeeds.
\<close>

theorem local_failures_do_not_escalate:
  "snd (Reload reconcile ac data) = ([], True, None) \<and>
   (\<forall>r. OnUpdate DescribeLoadBalancers owner build ac cfg = Inr r \<longrightarrow> returned r = None) \<and>
   (\<forall>f. OnUpdate DescribeLoadBalancers owner build ac cfg = Inl f \<longrightarrow>
      ALBIngresses ac = None \<and>
      (\<exists>err. DescribeLoadBalancers (ClusterName ac) = Inl err \<and> f = Fatal err)) \<and>
   (ALBIngresses ac \<noteq> None \<or> (\<exists>lbs. DescribeLoadBalancers (ClusterName ac) = Inr lbs) \<longrightarrow>
      (\<exists>r. OnUpdate DescribeLoadBalancers owner build ac cfg = Inr r \<and> returned r = None))"
proof (intro conjI allI impI)
  show "snd (Reload reconcile ac data) = ([], True, None)"
    by (simp add: Reload_def)
next
  fix r assume "OnUpdate DescribeLoadBalancers owner build ac cfg = Inr r"
  with OnUpdate_outcome [of DescribeLoadBalancers owner build ac cfg]
  show "returned r = None" by auto
next
  fix f assume f: "OnUpdate DescribeLoadBalancers owner build ac cfg = Inl f"
  with OnUpdate_outcome [of DescribeLoadBalancers owner build ac cfg]
  show "ALBIngresses ac = None" by auto
  from f OnUpdate_outcome [of DescribeLoadBalancers owner build ac cfg]
  show "\<exists>err. DescribeLoadBalancers (ClusterName ac) = Inl err \<and> f = Fatal err" by auto
next
  assume "ALBIngresses ac \<noteq> None \<or> (\<exists>lbs. DescribeLoadBalancers (ClusterName ac) = Inr lbs)"
  with OnUpdate_outcome [of DescribeLoadBalancers owner build ac cfg]
  show "\<exists>r. OnUpdate DescribeLoadBalancers owner build ac cfg = Inr r \<and> returned r = None"
    by auto
qed


theorem local_failures_do_not_escalate_witness:
  "snd (Reload teardown tracking []) = ([], True, None) \<and>
   ALBIngresses failing \<noteq> None \<and>
   fst (sample_build bar_spec failing) \<noteq> None \<and> snd (sample_build bar_spec failing) \<noteq> None \<and>
   (\<exists>r. OnUpdate cloud_down no_owner sample_build failing () = Inr r \<and> returned r = None)"
proof -
  have h1: "ALBIngresses failing \<noteq> None"
    by (simp add: failing_def)
  have h2: "fst (sample_build bar_spec failing) \<noteq> None \<and>
      snd (sample_build bar_spec failing) \<noteq> None"
    by (simp add: sample_build_def bar_spec_def)
  note inst = local_failures_do_not_escalate [where ac = failing
      and DescribeLoadBalancers = cloud_down and owner = no_owner and build = sample_build
      and cfg = "()"]
  from inst [where reconcile = teardown and data = "[]", THEN conjunct2, THEN conjunct2,
      THEN conjunct2] h1
  have "\<exists>r. OnUpdate cloud_down no_owner sample_build failing () = Inr r \<and> returned r = None"
    by blast
  moreover have "snd (Reload teardown tracking []) = ([], True, None)"
    by (rule local_failures_do_not_escalate [THEN conjunct1])
  ultimately show ?thesis using h1 h2 by blast
qed

section \<open>Idempotence of the diff cycle\<close>

lemma Strip_Strip [simp]: "StripDesiredState (StripDesiredState a) = StripDesiredState a"
  by (simp add: StripDesiredState_def)

lemma content_taint [simp]: "content (a\<lparr>tainted := t\<rparr>) = content a"
  by (simp add: content_def)

lemma identity_content: "identity a = fst (content a)"
  by (simp add: content_def)

lemma map_identity_content: "map identity xs = map fst (map content xs)"
  by (simp add: content_def o_def)

lemma build_loop_content:
  assumes "\<forall>i \<in> set specs. validIngress ac2 i = validIngress ac1 i \<and>
      map_option content (fst (build i ac2)) = map_option content (fst (build i ac1))"
    and "map content (elems acc2) = map content (elems acc1)"
  shows "map content (elems (build_loop build ac2 specs acc2)) =
         map content (elems (build_loop build ac1 specs acc1))"
  using assms
proof (induction specs arbitrary: acc1 acc2)
  case Nil
  then show ?case by simp
next
  case (Cons i specs)
  from Cons.prems(1) have v: "validIngress ac2 i = validIngress ac1 i"
    and b: "map_option content (fst (build i ac2)) = map_option content (fst (build i ac1))"
    and rest: "\<forall>i \<in> set specs. validIngress ac2 i = validIngress ac1 i \<and>
      map_option content (fst (build i ac2)) = map_option content (fst (build i ac1))"
    by simp_all
  show ?case
  proof (cases "validIngress ac1 i")
    case False
    with v Cons.IH [OF rest Cons.prems(2)] show ?thesis by simp
  next
    case True
    obtain e1 err1 where b1: "build i ac1 = (e1, err1)" by (cases "build i ac1")
    obtain e2 err2 where b2: "build i ac2 = (e2, err2)" by (cases "build i ac2")
    from b b1 b2 have eq: "map_option content e2 = map_option content e1" by simp
    show ?thesis
    proof (cases e1)
      case None
      with eq have "e2 = None" by simp
      with None True v b1 b2 Cons.IH [OF rest Cons.prems(2)] show ?thesis by simp
    next
      case (Some a1)
      with eq obtain a2 where a2: "e2 = Some a2" and c: "content a2 = content a1"
        by (cases e2) auto
      let ?x1 = "if err1 \<noteq> None then a1\<lparr>tainted := True\<rparr> else a1"
      let ?x2 = "if err2 \<noteq> None then a2\<lparr>tainted := True\<rparr> else a2"
      from c have "content ?x2 = content ?x1" by simp
      with Cons.prems(2)
      have "map content (elems (go_append acc2 [?x2])) = map content (elems (go_append acc1 [?x1]))"
        by simp
      from Cons.IH [OF rest this] Some a2 True v b1 b2 show ?thesis by simp
    qed
  qed
qed

lemma validIngress_same_class:
  "IngressClass ac2 = IngressClass ac1 \<Longrightarrow> validIngress ac2 i = validIngress ac1 i"
  by (simp add: validIngress_def)

lemma filter_none: "(\<And>x. x \<in> set xs \<Longrightarrow> \<not> P x) \<Longrightarrow> filter P xs = []"
  by (induction xs) auto

lemma filter_all: "(\<And>x. x \<in> set xs \<Longrightarrow> P x) \<Longrightarrow> filter P xs = xs"
  by (induction xs) auto

lemma map_Strip_Strip:
  "map StripDesiredState (map StripDesiredState xs) = map StripDesiredState xs"
  by (induction xs) simp_all

text \<open>
  C8, as the code has it. Two cycles in a row, with the ingress resources unchanged, the
  tracked set initialised at the start of the first and the first leaving at least one
  entity, so that neither runs the bootstrap: the second cycle leaves a tracked set with
  the identities and the desired states of the first one's, in the same order. The
  builder is a parameter and receives the controller; it is assumed to yield an entity
  for the same resources, with the same identity and desired state, in both cycles.
\<close>

theorem diff_idempotent:
  assumes init1: "ALBIngresses ac \<noteq> None"
    and run1: "OnUpdate DescribeLoadBalancers owner build ac cfg = Inr r1"
    and left: "elems (ALBIngresses (controller r1)) \<noteq> []"
    and run2: "OnUpdate DescribeLoadBalancers owner build (controller r1) cfg = Inr r2"
    and stable: "\<forall>i \<in> set (Ingress_List (storeLister ac)).
        map_option content (fst (build i (controller r1))) =
        map_option content (fst (build i ac))"
  shows "map content (elems (ALBIngresses (controller r2))) =
         map content (elems (ALBIngresses (controller r1)))"
proof -
  from left have init2: "ALBIngresses (controller r1) \<noteq> None"
    by (cases "ALBIngresses (controller r1)") simp_all
  let ?specs = "Ingress_List (storeLister ac)"
  let ?B1 = "build_loop build ac ?specs None"
  let ?K1 = "\<lambda>x. \<not> tainted x \<and> identity x \<notin> identity ` set (elems ?B1) \<and> LoadBalancers x \<noteq> []"
  let ?D1 = "map StripDesiredState (filter ?K1 (elems (ALBIngresses ac)))"
  let ?ac2 = "controller r1"
  let ?B2 = "build_loop build ?ac2 ?specs None"
  let ?K2 = "\<lambda>x. \<not> tainted x \<and> identity x \<notin> identity ` set (elems ?B2) \<and> LoadBalancers x \<noteq> []"
  from run1 have r1: "r1 = \<lparr>controller = ac\<lparr>ALBIngresses :=
             go_append ?B1 (elems (ingressToDelete ac ?B1))\<rparr>,
          returned = None,
          logged = [Debugf ''OnUpdate event seen by ALB ingress controller.'']\<rparr>"
    unfolding OnUpdate_initialized [OF init1] by simp
  have lister: "storeLister ?ac2 = storeLister ac" and cls: "IngressClass ?ac2 = IngressClass ac"
    by (simp_all add: r1)
  have n1: "elems (ALBIngresses ?ac2) = elems ?B1 @ ?D1"
    by (simp add: r1 elems_ingressToDelete)
  from run2 have r2: "r2 = \<lparr>controller = ?ac2\<lparr>ALBIngresses :=
             go_append ?B2 (elems (ingressToDelete ?ac2 ?B2))\<rparr>,
          returned = None,
          logged = [Debugf ''OnUpdate event seen by ALB ingress controller.'']\<rparr>"
    unfolding OnUpdate_initialized [OF init2] lister by simp
  have n2: "elems (ALBIngresses (controller r2)) =
      elems ?B2 @ map StripDesiredState (filter ?K2 (elems ?B1 @ ?D1))"
    by (subst r2) (simp add: elems_ingressToDelete n1)
  have "\<forall>i \<in> set ?specs. validIngress ?ac2 i = validIngress ac i \<and>
      map_option content (fst (build i ?ac2)) = map_option content (fst (build i ac))"
    using stable validIngress_same_class [OF cls] by simp
  then have built: "map content (elems ?B2) = map content (elems ?B1)"
    by (rule build_loop_content) simp
  then have "map identity (elems ?B2) = map identity (elems ?B1)"
    by (simp only: map_identity_content)
  then have ids: "identity ` set (elems ?B2) = identity ` set (elems ?B1)"
    by (metis set_map)
  have f1: "filter ?K2 (elems ?B1) = []"
    by (rule filter_none) (simp add: ids)
  have f2: "filter ?K2 ?D1 = ?D1"
    by (rule filter_all) (auto simp: ids)
  have "elems (ALBIngresses (controller r2)) = elems ?B2 @ ?D1"
    unfolding n2 filter_append f1 f2 by (simp only: append_Nil map_Strip_Strip)
  with built n1 show ?thesis by simp
qed

theorem diff_idempotent_witness:
  "ALBIngresses failing \<noteq> None \<and>
   OnUpdate no_cloud no_owner sample_build failing () = Inr first_diff \<and>
   elems (ALBIngresses (controller first_diff)) \<noteq> [] \<and>
   OnUpdate no_cloud no_owner sample_build (controller first_diff) () = Inr first_diff \<and>
   map content (elems (ALBIngresses (controller first_diff))) =
     [(''ns/bar'', Some ''bar''), (''ns/lower'', Some ''lower''), (''ns/foo'', None)]"
proof -
  have h1: "ALBIngresses failing \<noteq> None"
    by (simp add: failing_def)
  have h2: "OnUpdate no_cloud no_owner sample_build failing () = Inr first_diff"
    by (simp add: OnUpdate_def failing_def first_diff_def sample_build_def bar_spec_def
        lower_class_def validIngress_def annotation_def go_append_def ingressToDelete_def
        find_ingress_def foo_def StripDesiredState_def)
  have h3: "elems (ALBIngresses (controller first_diff)) \<noteq> []"
    by (simp add: first_diff_def)
  have h4: "OnUpdate no_cloud no_owner sample_build (controller first_diff) () = Inr first_diff"
    by (simp add: OnUpdate_def failing_def first_diff_def sample_build_def bar_spec_def
        lower_class_def validIngress_def annotation_def go_append_def ingressToDelete_def
        find_ingress_def foo_def StripDesiredState_def)
  have h5: "\<forall>i \<in> set (Ingress_List (storeLister failing)).
        map_option content (fst (sample_build i (controller first_diff))) =
        map_option content (fst (sample_build i failing))"
    by (simp add: sample_build_def content_def)
  have h6: "map content (elems (ALBIngresses (controller first_diff))) =
     [(''ns/bar'', Some ''bar''), (''ns/lower'', Some ''lower''), (''ns/foo'', None)]"
    by (simp add: first_diff_def content_def)
  from diff_idempotent [OF h1 h2 h3 h4 h5] h1 h2 h3 h4 h6 show ?thesis by simp
qed

text \<open>
  The claim C8 as written fails: the tainted entity \<open>ns/bar\<close> is tracked, no ingress
  resource is in the cluster, and the cloud still lists the load balancer \<open>arn2\<close> of
  \<open>ns/bar\<close>. The set is initialised, so the first cycle runs no bootstrap; it drops the
  tainted entity and leaves the set nil. The second cycle, on the same resources, finds
  the set nil, runs the bootstrap and leaves \<open>ns/bar\<close> pending teardown.
\<close>

theorem diff_idempotent_counterexample:
  "ALBIngresses tainted_only \<noteq> None \<and>
   OnUpdate bar_cloud bar_owner sample_build tainted_only () = Inr dropped_cycle \<and>
   \<not> bootstrap_ran dropped_cycle \<and>
   Ingress_List (storeLister (controller dropped_cycle)) =
     Ingress_List (storeLister tainted_only) \<and>
   OnUpdate bar_cloud bar_owner sample_build (controller dropped_cycle) () =
     Inr reseeded_cycle \<and>
   map content (elems (ALBIngresses (controller dropped_cycle))) = [] \<and>
   map content (elems (ALBIngresses (controller reseeded_cycle))) = [(''ns/bar'', None)]"
  by (simp add: OnUpdate_def assembleIngresses_def assemble_one_def
      NewALBIngressFromLoadBalancer_def bar_cloud_def bar_owner_def tainted_only_def
      no_specs_def dropped_cycle_def reseeded_cycle_def bar_def ingressToDelete_def
      find_ingress_def go_append_def StripDesiredState_def bootstrap_ran_def content_def)

end
